theory Spec2Isabelle
  imports Main
begin

section \<open>Data model of \<open>dallinger/db.py\<close>\<close>

text \<open>
  The module works on one SQLAlchemy scoped session. Three things about it are observable
  to the functions of the module and are kept in the state:
  \<^item> \<open>outbox\<close>: the entry \<open>session.info['outbox']\<close>, \<open>None\<close> while the key is absent;
  \<^item> \<open>published\<close>: the calls \<open>redis.publish(channel, message)\<close> made so far, in order;
  \<^item> \<open>calls\<close>: the calls made on the session object and on \<open>logger.exception\<close>, in order
    (the \<open>logger.debug\<close> lines have no effect on control flow and are left out).

  Exceptions are values. \<open>OperationalError orig\<close> is \<open>sqlalchemy.exc.OperationalError\<close>
  with its \<open>orig\<close> attribute classified by \<open>isinstance(exc.orig, TransactionRollbackError)\<close>;
  \<open>OtherException msg\<close> is any other subclass of \<open>Exception\<close>.
\<close>

datatype orig = TransactionRollbackError | OtherDriverError

datatype exn = OperationalError orig | OtherException string

type_synonym pair = "string \<times> string"

datatype call =
    CallConnection
  | CallFunc
  | CallCommit
  | LogException exn
  | CallRollback
  | CallRemove

record session =
  outbox :: "pair list option"
  published :: "pair list"
  calls :: "call list"

definition record_call :: "call \<Rightarrow> session \<Rightarrow> session" where
  "record_call c s = s\<lparr>calls := calls s @ [c]\<rparr>"

section \<open>Outbox and the session event listeners\<close>

text \<open>
  \<open>redis.publish(channel, message)\<close>, the external channel primitive; it is taken to
  return normally.
\<close>

definition publish :: "string \<Rightarrow> string \<Rightarrow> session \<Rightarrow> session" where
  "publish channel message s = s\<lparr>published := published s @ [(channel, message)]\<rparr>"

text \<open>\<open>after_begin\<close>: \<open>session.info['outbox'] = []\<close>.\<close>

definition after_begin :: "session \<Rightarrow> session" where
  "after_begin s = s\<lparr>outbox := Some []\<rparr>"

text \<open>\<open>after_soft_rollback\<close>: \<open>session.info['outbox'] = []\<close>.\<close>

definition after_soft_rollback :: "session \<Rightarrow> session" where
  "after_soft_rollback s = s\<lparr>outbox := Some []\<rparr>"

text \<open>
  \<open>queue_message\<close>: create the list when the key is absent, then append the pair.
\<close>

definition queue_message :: "string \<Rightarrow> string \<Rightarrow> session \<Rightarrow> session" where
  "queue_message channel message s =
     (let s1 = (if outbox s = None then s\<lparr>outbox := Some []\<rparr> else s)
      in s1\<lparr>outbox := map_option (\<lambda>xs. xs @ [(channel, message)]) (outbox s1)\<rparr>)"

text \<open>
  \<open>after_commit\<close>: \<open>for channel, message in session.info.get('outbox', ()):
  redis.publish(channel, message)\<close>. The handler does not assign to the outbox.
\<close>

definition pending :: "session \<Rightarrow> pair list" where
  "pending s = (case outbox s of None \<Rightarrow> [] | Some xs \<Rightarrow> xs)"

definition after_commit :: "session \<Rightarrow> session" where
  "after_commit s = fold (\<lambda>(channel, message). publish channel message) (pending s) s"

text \<open>
  What can happen to the session between two calls of the scope: the three events the
  module listens for (\<open>event.listens_for(Session, ...)\<close>) and calls of \<open>queue_message\<close>.
\<close>

datatype event =
    AfterBegin
  | AfterSoftRollback
  | QueueMessage string string
  | AfterCommit

fun fire :: "event \<Rightarrow> session \<Rightarrow> session" where
  "fire AfterBegin s = after_begin s"
| "fire AfterSoftRollback s = after_soft_rollback s"
| "fire (QueueMessage channel message) s = queue_message channel message s"
| "fire AfterCommit s = after_commit s"

definition run_events :: "event list \<Rightarrow> session \<Rightarrow> session" where
  "run_events evs s = fold fire evs s"

definition enqueue_all :: "pair list \<Rightarrow> event list" where
  "enqueue_all xs = map (\<lambda>(channel, message). QueueMessage channel message) xs"

section \<open>\<open>sessions_scope\<close>\<close>

text \<open>
  One pass through the scope depends on what the body and the session do. These outcomes
  are the input of the model: the events the body causes and its result, and whether
  \<open>session.connection\<close>, \<open>commit\<close> and \<open>rollback\<close> raise (\<open>None\<close>: the call returns).
  \<open>remove\<close> and the logger are taken to return normally.

  A commit that returns has run the \<open>after_commit\<close> listener, a rollback that returns the
  \<open>after_soft_rollback\<close> listener: these are the events the listeners are registered for.
\<close>

record 'a attempt =
  connection_raises :: "exn option"
  func_events :: "event list"
  func_result :: "exn + 'a"
  commit_raises :: "exn option"
  rollback_raises :: "exn option"

definition run_func :: "'a attempt \<Rightarrow> session \<Rightarrow> (exn + 'a) \<times> session" where
  "run_func env s = (func_result env, run_events (func_events env) (record_call CallFunc s))"

definition session_commit :: "'a attempt \<Rightarrow> session \<Rightarrow> exn option \<times> session" where
  "session_commit env s =
     (case commit_raises env of
        None \<Rightarrow> (None, after_commit (record_call CallCommit s))
      | Some e \<Rightarrow> (Some e, record_call CallCommit s))"

definition session_rollback :: "'a attempt \<Rightarrow> session \<Rightarrow> exn option \<times> session" where
  "session_rollback env s =
     (case rollback_raises env of
        None \<Rightarrow> (None, after_soft_rollback (record_call CallRollback s))
      | Some e \<Rightarrow> (Some e, record_call CallRollback s))"

definition session_remove :: "session \<Rightarrow> session" where
  "session_remove s = record_call CallRemove s"

text \<open>
  The \<open>try\<close> block (the body at \<open>yield\<close>, then the commit when asked for), the
  \<open>except Exception as e\<close> block (log, rollback, \<open>raise e\<close>; an exception of the rollback
  leaves the block in place of \<open>raise e\<close>), and the \<open>finally\<close> block.
\<close>

definition scope_try :: "bool \<Rightarrow> 'a attempt \<Rightarrow> session \<Rightarrow> (exn + 'a) \<times> session" where
  "scope_try commit env s =
     (case run_func env s of
        (Inl e, s1) \<Rightarrow> (Inl e, s1)
      | (Inr v, s1) \<Rightarrow>
          (if commit then
             (case session_commit env s1 of
                (None, s2) \<Rightarrow> (Inr v, s2)
              | (Some e, s2) \<Rightarrow> (Inl e, s2))
           else (Inr v, s1)))"

definition scope_except :: "'a attempt \<Rightarrow> exn \<Rightarrow> session \<Rightarrow> exn \<times> session" where
  "scope_except env e s =
     (case session_rollback env (record_call (LogException e) s) of
        (None, s1) \<Rightarrow> (e, s1)
      | (Some e', s1) \<Rightarrow> (e', s1))"

definition sessions_scope :: "bool \<Rightarrow> 'a attempt \<Rightarrow> session \<Rightarrow> (exn + 'a) \<times> session" where
  "sessions_scope commit env s =
     (case scope_try commit env s of
        (Inr v, s1) \<Rightarrow> (Inr v, session_remove s1)
      | (Inl e, s1) \<Rightarrow>
          (case scope_except env e s1 of
             (e', s2) \<Rightarrow> (Inl e', session_remove s2)))"

section \<open>\<open>serialized\<close>\<close>

text \<open>
  The four ways the wrapper can end: \<open>return func(...)\<close>, falling off the end of the
  \<open>while\<close> loop (Python then returns \<open>None\<close>), an exception of the attempt leaving the
  wrapper (the bare \<open>raise\<close>, or an exception that \<open>except OperationalError\<close> does not
  catch), and the wrapper's own \<open>raise Exception(...)\<close>.
\<close>

datatype 'a outcome =
    Returned 'a
  | ReturnedNone
  | Propagated exn
  | RaisedByWrapper exn

definition could_not_commit :: exn where
  "could_not_commit =
     OtherException ''Could not commit serialized transaction after 100 attempts.''"

text \<open>The body of the \<open>try\<close> in the loop: \<open>session.connection(...)\<close>, then the scope.\<close>

definition attempt_once :: "'a attempt \<Rightarrow> session \<Rightarrow> (exn + 'a) \<times> session" where
  "attempt_once env s =
     (case connection_raises env of
        Some e \<Rightarrow> (Inl e, record_call CallConnection s)
      | None \<Rightarrow> sessions_scope True env (record_call CallConnection s))"

text \<open>
  The loop. \<open>attempts\<close> is a Python integer; \<open>i\<close> counts the passes made so far and
  selects the outcomes of the current pass in \<open>envs\<close>.
\<close>

function serialized_loop ::
  "int \<Rightarrow> nat \<Rightarrow> (nat \<Rightarrow> 'a attempt) \<Rightarrow> session \<Rightarrow> 'a outcome \<times> session" where
  "serialized_loop attempts i envs s =
     (if attempts > 0 then
        (case attempt_once (envs i) s of
           (Inr v, s1) \<Rightarrow> (Returned v, s1)
         | (Inl (OperationalError orig), s1) \<Rightarrow>
             (if orig = TransactionRollbackError then
                (if attempts > 0 then serialized_loop (attempts - 1) (Suc i) envs s1
                 else (RaisedByWrapper could_not_commit, s1))
              else (Propagated (OperationalError orig), s1))
         | (Inl (OtherException msg), s1) \<Rightarrow> (Propagated (OtherException msg), s1))
      else (ReturnedNone, s))"
  by pat_completeness auto
termination
  by (relation "measure (\<lambda>(attempts, i, envs, s). nat attempts)") auto

declare serialized_loop.simps [simp del]

definition serialized :: "(nat \<Rightarrow> 'a attempt) \<Rightarrow> session \<Rightarrow> 'a outcome \<times> session" where
  "serialized envs s = serialized_loop 100 0 envs s"

text \<open>How often \<open>func\<close> has been invoked, and the calls made since an earlier state.\<close>

definition invocations :: "session \<Rightarrow> nat" where
  "invocations s = count_list (calls s) CallFunc"

definition calls_since :: "session \<Rightarrow> session \<Rightarrow> call list" where
  "calls_since s s' = drop (length (calls s)) (calls s')"

section \<open>Auxiliary definitions for the statements\<close>

text \<open>
  A pass in which the session calls return and \<open>func\<close> raises an \<open>OperationalError\<close>
  whose \<open>orig\<close> is a \<open>TransactionRollbackError\<close>.
\<close>

definition func_raises_conflict :: "'a attempt \<Rightarrow> bool" where
  "func_raises_conflict env \<longleftrightarrow>
     connection_raises env = None
     \<and> func_result env = Inl (OperationalError TransactionRollbackError)
     \<and> rollback_raises env = None"

text \<open>The session after \<open>k\<close> passes of the loop body, starting with pass \<open>i\<close>.\<close>

fun after_attempts :: "nat \<Rightarrow> nat \<Rightarrow> (nat \<Rightarrow> 'a attempt) \<Rightarrow> session \<Rightarrow> session" where
  "after_attempts 0 i envs s = s"
| "after_attempts (Suc k) i envs s =
     after_attempts k (Suc i) envs (snd (attempt_once (envs i) s))"

text \<open>Concrete sessions and passes used to instantiate the theorems.\<close>

definition fresh_session :: session where
  "fresh_session = \<lparr>outbox = None, published = [], calls = []\<rparr>"


definition pass_raising :: "exn \<Rightarrow> nat attempt" where
  "pass_raising e =
     \<lparr>connection_raises = None, func_events = [], func_result = Inl e,
      commit_raises = None, rollback_raises = None\<rparr>"

definition pass_raising_rollback_failing :: "exn \<Rightarrow> exn \<Rightarrow> nat attempt" where
  "pass_raising_rollback_failing e r =
     \<lparr>connection_raises = None, func_events = [], func_result = Inl e,
      commit_raises = None, rollback_raises = Some r\<rparr>"

definition pass_enqueueing :: "pair list \<Rightarrow> exn + nat \<Rightarrow> nat attempt" where
  "pass_enqueueing xs r =
     \<lparr>connection_raises = None, func_events = AfterBegin # enqueue_all xs, func_result = r,
      commit_raises = None, rollback_raises = None\<rparr>"

text \<open>A \<open>func\<close> that raises the conflict on every invocation, or on the first \<open>k\<close> only.\<close>

definition always_conflicting :: "nat \<Rightarrow> nat attempt" where
  "always_conflicting i = pass_raising (OperationalError TransactionRollbackError)"


definition alert :: pair where
  "alert = (''alerts'', ''job:42:done'')"

definition session_with_alert :: session where
  "session_with_alert = \<lparr>outbox = Some [alert], published = [], calls = []\<rparr>"





section \<open>Basic facts about the listeners\<close>

lemma record_call_simps [simp]:
  "calls (record_call c s) = calls s @ [c]"
  "outbox (record_call c s) = outbox s"
  "published (record_call c s) = published s"
  by (simp_all add: record_call_def)

lemma fold_publish:
  "fold (\<lambda>(channel, message). publish channel message) xs s
     = s\<lparr>published := published s @ xs\<rparr>"
proof (induction xs arbitrary: s)
  case Nil
  show ?case by simp
next
  case (Cons x xs)
  obtain c m where x: "x = (c, m)" by (cases x)
  have "fold (\<lambda>(channel, message). publish channel message) (x # xs) s
          = fold (\<lambda>(channel, message). publish channel message) xs (publish c m s)"
    by (simp add: x)
  also have "\<dots> = (publish c m s)\<lparr>published := published (publish c m s) @ xs\<rparr>"
    by (rule Cons.IH)
  also have "\<dots> = s\<lparr>published := published s @ x # xs\<rparr>"
    by (simp add: publish_def x)
  finally show ?case .
qed

lemma after_commit_eq: "after_commit s = s\<lparr>published := published s @ pending s\<rparr>"
  by (simp add: after_commit_def fold_publish)

lemma after_commit_simps [simp]:
  "published (after_commit s) = published s @ pending s"
  "outbox (after_commit s) = outbox s"
  "calls (after_commit s) = calls s"
  by (simp_all add: after_commit_eq)

lemma reset_simps [simp]:
  "outbox (after_begin s) = Some []"
  "published (after_begin s) = published s"
  "calls (after_begin s) = calls s"
  "outbox (after_soft_rollback s) = Some []"
  "published (after_soft_rollback s) = published s"
  "calls (after_soft_rollback s) = calls s"
  by (simp_all add: after_begin_def after_soft_rollback_def)

lemma queue_message_simps [simp]:
  "outbox (queue_message c m s) = Some (pending s @ [(c, m)])"
  "published (queue_message c m s) = published s"
  "calls (queue_message c m s) = calls s"
  by (simp_all add: queue_message_def pending_def Let_def split: option.splits)

lemma fire_calls [simp]: "calls (fire ev s) = calls s"
  by (cases ev) simp_all

lemma run_events_calls [simp]: "calls (run_events evs s) = calls s"
  unfolding run_events_def by (induction evs arbitrary: s) simp_all

lemma run_events_Nil [simp]: "run_events [] s = s"
  by (simp add: run_events_def)

lemma run_events_Cons [simp]: "run_events (ev # evs) s = run_events evs (fire ev s)"
  by (simp add: run_events_def)

lemma run_events_append [simp]:
  "run_events (evs @ evs') s = run_events evs' (run_events evs s)"
  by (simp add: run_events_def)

lemma run_events_no_commit:
  "AfterCommit \<notin> set evs \<Longrightarrow> published (run_events evs s) = published s"
proof (induction evs arbitrary: s)
  case Nil
  show ?case by simp
next
  case (Cons ev evs)
  then show ?case by (cases ev) simp_all
qed

lemma pending_simps [simp]:
  "pending (after_begin s) = []"
  "pending (after_soft_rollback s) = []"
  "pending (queue_message c m s) = pending s @ [(c, m)]"
  "pending (after_commit s) = pending s"
  "pending (record_call k s) = pending s"
  by (simp_all add: pending_def)

lemma run_enqueue_all_pending:
  "pending (run_events (enqueue_all xs) s) = pending s @ xs"
proof (induction xs arbitrary: s)
  case Nil
  show ?case by (simp add: enqueue_all_def)
next
  case (Cons x xs)
  obtain c m where x: "x = (c, m)" by (cases x)
  from Cons.IH show ?case by (simp add: enqueue_all_def x)
qed

lemma run_enqueue_all_published:
  "published (run_events (enqueue_all xs) s) = published s"
  by (rule run_events_no_commit) (auto simp: enqueue_all_def)

section \<open>Facts about the scope\<close>

lemma session_remove_simps [simp]:
  "calls (session_remove s) = calls s @ [CallRemove]"
  "outbox (session_remove s) = outbox s"
  "published (session_remove s) = published s"
  "pending (session_remove s) = pending s"
  by (simp_all add: session_remove_def)

lemma scope_func_raises:
  "func_result env = Inl e \<Longrightarrow> rollback_raises env = None \<Longrightarrow>
   sessions_scope commit env s =
     (Inl e, session_remove (after_soft_rollback (record_call CallRollback
        (record_call (LogException e) (run_events (func_events env) (record_call CallFunc s))))))"
  by (simp add: sessions_scope_def scope_try_def scope_except_def run_func_def
        session_rollback_def)

lemma scope_rollback_raises:
  "func_result env = Inl e \<Longrightarrow> rollback_raises env = Some r \<Longrightarrow>
   sessions_scope commit env s =
     (Inl r, session_remove (record_call CallRollback
        (record_call (LogException e) (run_events (func_events env) (record_call CallFunc s)))))"
  by (simp add: sessions_scope_def scope_try_def scope_except_def run_func_def
        session_rollback_def)

lemma scope_commits:
  "func_result env = Inr v \<Longrightarrow> commit_raises env = None \<Longrightarrow>
   sessions_scope True env s =
     (Inr v, session_remove (after_commit (record_call CallCommit
        (run_events (func_events env) (record_call CallFunc s)))))"
  by (simp add: sessions_scope_def scope_try_def run_func_def session_commit_def)

lemma scope_no_commit:
  "func_result env = Inr v \<Longrightarrow>
   sessions_scope False env s =
     (Inr v, session_remove (run_events (func_events env) (record_call CallFunc s)))"
  by (simp add: sessions_scope_def scope_try_def run_func_def)

lemma scope_commit_raises:
  "func_result env = Inr v \<Longrightarrow> commit_raises env = Some e \<Longrightarrow>
   sessions_scope True env s =
     (case rollback_raises env of
        None \<Rightarrow> (Inl e, session_remove (after_soft_rollback (record_call CallRollback
           (record_call (LogException e) (record_call CallCommit
             (run_events (func_events env) (record_call CallFunc s)))))))
      | Some r \<Rightarrow> (Inl r, session_remove (record_call CallRollback
           (record_call (LogException e) (record_call CallCommit
             (run_events (func_events env) (record_call CallFunc s)))))))"
  by (simp add: sessions_scope_def scope_try_def scope_except_def run_func_def
        session_commit_def session_rollback_def split: option.splits)

lemma calls_since_append [simp]: "calls s' = calls s @ xs \<Longrightarrow> calls_since s s' = xs"
  by (simp add: calls_since_def)


section \<open>Facts about the retry loop\<close>

lemma attempt_once_conflict:
  "func_raises_conflict env \<Longrightarrow>
   fst (attempt_once env s) = Inl (OperationalError TransactionRollbackError)
   \<and> invocations (snd (attempt_once env s)) = Suc (invocations s)"
  by (simp add: func_raises_conflict_def attempt_once_def scope_func_raises invocations_def)

lemma loop_step_conflict:
  assumes "0 < attempts"
    and "fst (attempt_once (envs i) s) = Inl (OperationalError TransactionRollbackError)"
  shows "serialized_loop attempts i envs s
           = serialized_loop (attempts - 1) (Suc i) envs (snd (attempt_once (envs i) s))"
proof -
  obtain r s1 where a: "attempt_once (envs i) s = (r, s1)" by (cases "attempt_once (envs i) s")
  with assms(2) have r: "r = Inl (OperationalError TransactionRollbackError)" by simp
  show ?thesis
    by (subst serialized_loop.simps) (simp add: assms(1) a r)
qed

lemma loop_conflicts:
  "\<forall>j<k. \<forall>s. fst (attempt_once (envs (i + j)) s) = Inl (OperationalError TransactionRollbackError)
   \<Longrightarrow> int k \<le> attempts
   \<Longrightarrow> serialized_loop attempts i envs s
         = serialized_loop (attempts - int k) (i + k) envs (after_attempts k i envs s)"
proof (induction k arbitrary: attempts i s)
  case 0
  show ?case by simp
next
  case (Suc k)
  from Suc.prems(1) have first:
    "fst (attempt_once (envs i) s) = Inl (OperationalError TransactionRollbackError)"
    by (metis add.right_neutral zero_less_Suc)
  have rest: "\<forall>j<k. \<forall>s. fst (attempt_once (envs (Suc i + j)) s)
                = Inl (OperationalError TransactionRollbackError)"
  proof (intro allI impI)
    fix j s' assume "j < k"
    then have "Suc j < Suc k" by simp
    with Suc.prems(1) have
      "fst (attempt_once (envs (i + Suc j)) s') = Inl (OperationalError TransactionRollbackError)"
      by blast
    then show "fst (attempt_once (envs (Suc i + j)) s')
                = Inl (OperationalError TransactionRollbackError)" by simp
  qed
  from Suc.prems(2) have pos: "0 < attempts" and le: "int k \<le> attempts - 1" by simp_all
  have "serialized_loop attempts i envs s
          = serialized_loop (attempts - 1) (Suc i) envs (snd (attempt_once (envs i) s))"
    using pos first by (rule loop_step_conflict)
  also have "\<dots> = serialized_loop (attempts - 1 - int k) (Suc i + k) envs
                     (after_attempts k (Suc i) envs (snd (attempt_once (envs i) s)))"
    by (rule Suc.IH [OF rest le])
  finally show ?case by (simp add: algebra_simps)
qed

lemma after_attempts_invocations:
  "\<forall>j<k. func_raises_conflict (envs (i + j))
   \<Longrightarrow> invocations (after_attempts k i envs s) = invocations s + k"
proof (induction k arbitrary: i s)
  case 0
  show ?case by simp
next
  case (Suc k)
  from Suc.prems have first: "func_raises_conflict (envs i)"
    by (metis add.right_neutral zero_less_Suc)
  have rest: "\<forall>j<k. func_raises_conflict (envs (Suc i + j))"
  proof (intro allI impI)
    fix j assume "j < k"
    then have "Suc j < Suc k" by simp
    with Suc.prems have "func_raises_conflict (envs (i + Suc j))" by blast
    then show "func_raises_conflict (envs (Suc i + j))" by simp
  qed
  show ?case
    by (simp add: Suc.IH [OF rest] attempt_once_conflict [OF first])
qed

lemma loop_exhausted: "serialized_loop 0 i envs s = (ReturnedNone, s)"
  by (subst serialized_loop.simps) simp

lemma loop_never_raises_own:
  "fst (serialized_loop attempts i envs s) \<noteq> RaisedByWrapper x"
proof (induction attempts i envs s rule: serialized_loop.induct)
  case (1 attempts i envs s)
  show ?case
  proof (cases "0 < attempts")
    case False
    then show ?thesis by (subst serialized_loop.simps) simp
  next
    case True
    obtain r s1 where a: "attempt_once (envs i) s = (r, s1)"
      by (cases "attempt_once (envs i) s")
    show ?thesis
    proof (cases r)
      case (Inr v)
      with True a show ?thesis by (subst serialized_loop.simps) simp
    next
      case (Inl e)
      show ?thesis
      proof (cases e)
        case (OtherException msg)
        with True a Inl show ?thesis by (subst serialized_loop.simps) simp
      next
        case (OperationalError orig)
        show ?thesis
        proof (cases "orig = TransactionRollbackError")
          case False
          with True a Inl OperationalError show ?thesis
            by (subst serialized_loop.simps) simp
        next
          case conf: True
          have "fst (serialized_loop (attempts - 1) (Suc i) envs s1) \<noteq> RaisedByWrapper x"
            using "1.IH" [OF True a [symmetric] Inl OperationalError conf True] .
          with True a Inl OperationalError conf show ?thesis
            by (subst serialized_loop.simps) simp
        qed
      qed
    qed
  qed
qed


lemma conflicts_prefix:
  "\<forall>j<k. func_raises_conflict (envs j) \<Longrightarrow>
   \<forall>j<k::nat. \<forall>s. fst (attempt_once (envs (0 + j)) s) = Inl (OperationalError TransactionRollbackError)"
  by (simp add: attempt_once_conflict)

lemma serialized_after_conflicts:
  assumes "k \<le> 100" and "\<forall>j<k. func_raises_conflict (envs j)"
  shows "serialized envs s = serialized_loop (100 - int k) k envs (after_attempts k 0 envs s)"
    and "invocations (after_attempts k 0 envs s) = invocations s + k"
proof -
  from assms(1) have le: "int k \<le> 100" by simp
  show "serialized envs s = serialized_loop (100 - int k) k envs (after_attempts k 0 envs s)"
    unfolding serialized_def
    using loop_conflicts [OF conflicts_prefix [OF assms(2)] le, of s] by simp
  from assms(2) have "\<forall>j<k. func_raises_conflict (envs (0 + j))" by simp
  then show "invocations (after_attempts k 0 envs s) = invocations s + k"
    by (rule after_attempts_invocations)
qed

lemma always_conflicting_conflict: "func_raises_conflict (always_conflicting i)"
  by (simp add: always_conflicting_def pass_raising_def func_raises_conflict_def)




section \<open>What the scope publishes\<close>

lemma scope_published:
  assumes "func_events env = AfterBegin # enqueue_all xs"
  shows "published (snd (sessions_scope True env s))
           = published s @ (case fst (sessions_scope True env s) of Inl e \<Rightarrow> [] | Inr v \<Rightarrow> xs)"
    and "published (snd (sessions_scope False env s)) = published s"
proof -
  show "published (snd (sessions_scope True env s))
           = published s @ (case fst (sessions_scope True env s) of Inl e \<Rightarrow> [] | Inr v \<Rightarrow> xs)"
  proof (cases "func_result env")
    case (Inl e)
    then show ?thesis
      by (cases "rollback_raises env")
         (simp_all add: scope_func_raises scope_rollback_raises assms run_enqueue_all_pending run_enqueue_all_published)
  next
    case (Inr v)
    show ?thesis
    proof (cases "commit_raises env")
      case None
      with Inr show ?thesis by (simp add: scope_commits assms run_enqueue_all_pending run_enqueue_all_published)
    next
      case (Some e)
      with Inr show ?thesis
        by (cases "rollback_raises env") (simp_all add: scope_commit_raises assms run_enqueue_all_pending run_enqueue_all_published)
    qed
  qed
  show "published (snd (sessions_scope False env s)) = published s"
  proof (cases "func_result env")
    case (Inl e)
    then show ?thesis
      by (cases "rollback_raises env")
         (simp_all add: scope_func_raises scope_rollback_raises assms run_enqueue_all_pending run_enqueue_all_published)
  next
    case (Inr v)
    then show ?thesis by (simp add: scope_no_commit assms run_enqueue_all_pending run_enqueue_all_published)
  qed
qed

section \<open>Properties of \<open>sessions_scope\<close>\<close>

text \<open>
  C6, as stated: whenever the body raises, the exception that leaves the scope is the one
  the body raised. It is not: with a body raising an \<open>OperationalError\<close> and a rollback
  raising \<open>connection lost\<close>, the scope ends with \<open>connection lost\<close>.
\<close>

theorem scope_propagates_rollback_error:
  "func_result (pass_raising_rollback_failing (OperationalError OtherDriverError)
      (OtherException ''connection lost''))
     = Inl (OperationalError OtherDriverError)
   \<and> fst (sessions_scope True
          (pass_raising_rollback_failing (OperationalError OtherDriverError)
             (OtherException ''connection lost''))
          fresh_session)
     = Inl (OtherException ''connection lost'')"
  by (simp add: scope_rollback_raises pass_raising_rollback_failing_def)

text \<open>
  C6, amended: when the body of \<open>sessions_scope\<close> raises \<open>e\<close>, the scope logs \<open>e\<close>, calls
  \<open>rollback\<close> and then \<open>remove\<close> before anything leaves the scope, whatever the rollback
  does; when the rollback returns, the exception that leaves the scope is \<open>e\<close> itself.
\<close>

theorem scope_rollback_before_propagation:
  "func_result env = Inl e \<Longrightarrow>
     calls_since s (snd (sessions_scope commit env s))
       = [CallFunc, LogException e, CallRollback, CallRemove]
     \<and> (rollback_raises env = None \<longrightarrow> fst (sessions_scope commit env s) = Inl e)"
  by (cases "rollback_raises env")
     (simp_all add: scope_func_raises scope_rollback_raises)

theorem scope_rollback_before_propagation_witness:
  "calls_since fresh_session
     (snd (sessions_scope False (pass_raising (OtherException ''domain'')) fresh_session))
     = [CallFunc, LogException (OtherException ''domain''), CallRollback, CallRemove]
   \<and> fst (sessions_scope False (pass_raising (OtherException ''domain'')) fresh_session)
     = Inl (OtherException ''domain'')"
  using scope_rollback_before_propagation
    [of "pass_raising (OtherException ''domain'')" "OtherException ''domain''"
        fresh_session False]
  by (simp add: pass_raising_def)

text \<open>
  C7, as stated: when the body raises and the rollback fails too, the original exception
  is the one that leaves the scope. It is not: with a body raising \<open>domain\<close> and a rollback
  raising \<open>rollback failed\<close>, the scope ends with \<open>rollback failed\<close>.
\<close>

theorem scope_rollback_failure_masks_original:
  "fst (sessions_scope False
          (pass_raising_rollback_failing (OtherException ''domain'')
             (OtherException ''rollback failed''))
          fresh_session)
     = Inl (OtherException ''rollback failed'')
   \<and> fst (sessions_scope False
          (pass_raising_rollback_failing (OtherException ''domain'')
             (OtherException ''rollback failed''))
          fresh_session)
     \<noteq> Inl (OtherException ''domain'')"
  by (simp add: scope_rollback_raises pass_raising_rollback_failing_def)

text \<open>
  C7, amended: when the body raises \<open>e\<close> and the rollback raises \<open>r\<close>, the exception that
  leaves the scope is \<open>r\<close>; \<open>e\<close> has been logged before the rollback was called, and the
  session is removed afterwards.
\<close>

theorem scope_rollback_failure_propagates:
  "func_result env = Inl e \<Longrightarrow> rollback_raises env = Some r \<Longrightarrow>
     fst (sessions_scope commit env s) = Inl r
     \<and> calls_since s (snd (sessions_scope commit env s))
         = [CallFunc, LogException e, CallRollback, CallRemove]"
  by (simp add: scope_rollback_raises)

theorem scope_rollback_failure_propagates_witness:
  "fst (sessions_scope True
          (pass_raising_rollback_failing (OtherException ''domain'')
             (OperationalError OtherDriverError))
          fresh_session)
     = Inl (OperationalError OtherDriverError)
   \<and> calls_since fresh_session
        (snd (sessions_scope True
           (pass_raising_rollback_failing (OtherException ''domain'')
              (OperationalError OtherDriverError))
           fresh_session))
     = [CallFunc, LogException (OtherException ''domain''), CallRollback, CallRemove]"
  using scope_rollback_failure_propagates
    [of "pass_raising_rollback_failing (OtherException ''domain'')
           (OperationalError OtherDriverError)"
        "OtherException ''domain''" "OperationalError OtherDriverError" True fresh_session]
  by (simp add: pass_raising_rollback_failing_def)

text \<open>
  C8. On every path through \<open>sessions_scope\<close> (the body returns with or without a commit,
  the body raises, the commit raises, the rollback raises) \<open>remove\<close> is called exactly
  once, and it is the last call the scope makes.
\<close>

theorem scope_removes_once:
  "count_list (calls_since s (snd (sessions_scope commit env s))) CallRemove = 1
   \<and> last (calls_since s (snd (sessions_scope commit env s))) = CallRemove"
proof (cases "func_result env")
  case (Inl e)
  then show ?thesis
    by (cases "rollback_raises env") (simp_all add: scope_func_raises scope_rollback_raises)
next
  case (Inr v)
  show ?thesis
  proof (cases commit)
    case False
    with Inr show ?thesis by (simp add: scope_no_commit)
  next
    case True
    show ?thesis
    proof (cases "commit_raises env")
      case None
      with Inr True show ?thesis by (simp add: scope_commits)
    next
      case (Some e)
      with Inr True show ?thesis
        by (cases "rollback_raises env") (simp_all add: scope_commit_raises)
    qed
  qed
qed

section \<open>Properties of the outbox\<close>

text \<open>
  C1. A pair enqueued with \<open>queue_message\<close> reaches \<open>redis.publish\<close> exactly when its
  transaction commits. A transaction that begins, does anything but commit and is rolled
  back publishes nothing and leaves an empty outbox behind; a transaction that begins,
  enqueues \<open>xs\<close> and commits publishes \<open>xs\<close>. Under \<open>sessions_scope\<close> with a body that
  enqueues \<open>xs\<close> in a new transaction, \<open>xs\<close> is published when the scope returns (the
  commit was made) and nothing is published when an exception leaves it (the body or the
  commit raised, and the scope rolled back), nor when no commit was asked for.
\<close>

theorem published_iff_committed:
  "(AfterCommit \<notin> set body \<longrightarrow>
      published (run_events (AfterBegin # body @ [AfterSoftRollback]) s) = published s
      \<and> pending (run_events (AfterBegin # body @ [AfterSoftRollback]) s) = [])
   \<and> published (run_events (AfterBegin # enqueue_all xs @ [AfterCommit]) s) = published s @ xs
   \<and> (func_events env = AfterBegin # enqueue_all xs \<longrightarrow>
        published (snd (sessions_scope True env s))
          = published s @ (case fst (sessions_scope True env s) of Inl e \<Rightarrow> [] | Inr v \<Rightarrow> xs)
        \<and> published (snd (sessions_scope False env s)) = published s)"
proof (intro conjI impI)
  assume "AfterCommit \<notin> set body"
  then show "published (run_events (AfterBegin # body @ [AfterSoftRollback]) s) = published s"
    by (simp add: run_events_no_commit)
next
  show "pending (run_events (AfterBegin # body @ [AfterSoftRollback]) s) = []"
    by simp
next
  show "published (run_events (AfterBegin # enqueue_all xs @ [AfterCommit]) s) = published s @ xs"
    by (simp add: run_enqueue_all_pending run_enqueue_all_published)
next
  assume "func_events env = AfterBegin # enqueue_all xs"
  then show "published (snd (sessions_scope True env s))
          = published s @ (case fst (sessions_scope True env s) of Inl e \<Rightarrow> [] | Inr v \<Rightarrow> xs)"
    by (rule scope_published)
next
  assume "func_events env = AfterBegin # enqueue_all xs"
  then show "published (snd (sessions_scope False env s)) = published s"
    by (rule scope_published)
qed

theorem published_iff_committed_witness:
  "published (run_events (AfterBegin # [QueueMessage ''alerts'' ''job:42:done'']
      @ [AfterSoftRollback]) fresh_session) = []
   \<and> published (snd (sessions_scope True
         (pass_enqueueing [alert] (Inl (OtherException ''domain''))) fresh_session)) = []
   \<and> published (snd (sessions_scope True (pass_enqueueing [alert] (Inr 0)) fresh_session))
       = [alert]"
  using published_iff_committed
    [of "[QueueMessage ''alerts'' ''job:42:done'']" fresh_session "[alert]"
        "pass_enqueueing [alert] (Inl (OtherException ''domain''))"]
    published_iff_committed
    [of "[QueueMessage ''alerts'' ''job:42:done'']" fresh_session "[alert]"
        "pass_enqueueing [alert] (Inr 0)"]
  by (simp add: pass_enqueueing_def fresh_session_def scope_func_raises scope_commits)

text \<open>
  C2. The commit publishes exactly the pairs enqueued since the last reset, in the order
  they were enqueued, one call for each: what was pending plus \<open>xs\<close> when \<open>xs\<close> is enqueued
  with no reset in between, and \<open>xs\<close> alone when \<open>xs\<close> is enqueued after \<open>after_begin\<close> or
  after \<open>after_soft_rollback\<close>, whatever was enqueued before that reset.
\<close>

theorem commit_publishes_enqueued_since_reset:
  "published (run_events (enqueue_all xs @ [AfterCommit]) s) = published s @ pending s @ xs
   \<and> published (run_events (pre @ AfterBegin # enqueue_all xs @ [AfterCommit]) s)
       = published (run_events pre s) @ xs
   \<and> published (run_events (pre @ AfterSoftRollback # enqueue_all xs @ [AfterCommit]) s)
       = published (run_events pre s) @ xs"
  by (simp add: run_enqueue_all_pending run_enqueue_all_published)

text \<open>
  C9, as stated: the commit empties the outbox. It does not: after \<open>after_commit\<close> the
  outbox of a session holding one pair still holds that pair.
\<close>

theorem after_commit_keeps_outbox:
  "outbox (after_commit session_with_alert) = Some [(''alerts'', ''job:42:done'')]
   \<and> pending (after_commit session_with_alert) \<noteq> []"
  by (simp add: session_with_alert_def alert_def pending_def)

text \<open>
  C9, amended: \<open>after_commit\<close> publishes the whole outbox in order, one call for each
  pair, and leaves the outbox as it was; the outbox is emptied by the next \<open>after_begin\<close>
  or \<open>after_soft_rollback\<close>.
\<close>

theorem after_commit_publishes_and_keeps:
  "published (after_commit s) = published s @ pending s
   \<and> outbox (after_commit s) = outbox s
   \<and> pending (after_begin (after_commit s)) = []
   \<and> pending (after_soft_rollback (after_commit s)) = []"
  by simp

section \<open>Properties of \<open>serialized\<close>\<close>

text \<open>
  C3. A \<open>func\<close> that raises the conflict on every invocation is invoked 100 times; the
  wrapper then leaves the loop and returns \<open>None\<close>: it does not raise.
\<close>

theorem serialized_exhausted_returns_none:
  "fst (serialized always_conflicting fresh_session) = ReturnedNone
   \<and> invocations (snd (serialized always_conflicting fresh_session)) = 100"
proof -
  have c: "\<forall>j<100. func_raises_conflict (always_conflicting j)"
    by (simp add: always_conflicting_conflict)
  have "serialized always_conflicting fresh_session
          = serialized_loop (100 - int 100) 100 always_conflicting
              (after_attempts 100 0 always_conflicting fresh_session)"
    and "invocations (after_attempts 100 0 always_conflicting fresh_session)
          = invocations fresh_session + 100"
    using serialized_after_conflicts [OF order_refl c] by simp_all
  then show ?thesis
    by (simp add: loop_exhausted invocations_def fresh_session_def)
qed






text \<open>
  C10. The wrapper's own \<open>raise Exception(...)\<close> is never reached, from any value of
  \<open>attempts\<close>: the handler runs only inside the loop body, where \<open>attempts > 0\<close> holds.
  When each of the 100 passes ends in the conflict, the wrapper returns \<open>None\<close>.
\<close>

theorem serialized_never_raises_own:
  "fst (serialized_loop attempts i envs s) \<noteq> RaisedByWrapper x
   \<and> ((\<forall>j<100. \<forall>s'. fst (attempt_once (envs j) s')
                      = Inl (OperationalError TransactionRollbackError))
        \<longrightarrow> fst (serialized envs s) = ReturnedNone)"
proof (intro conjI impI)
  show "fst (serialized_loop attempts i envs s) \<noteq> RaisedByWrapper x"
    by (rule loop_never_raises_own)
next
  assume "\<forall>j<100. \<forall>s'. fst (attempt_once (envs j) s')
            = Inl (OperationalError TransactionRollbackError)"
  then have "\<forall>j<100. \<forall>s'. fst (attempt_once (envs (0 + j)) s')
            = Inl (OperationalError TransactionRollbackError)" by simp
  then have "serialized_loop 100 0 envs s
               = serialized_loop (100 - int 100) (0 + 100) envs (after_attempts 100 0 envs s)"
    by (rule loop_conflicts) simp
  then show "fst (serialized envs s) = ReturnedNone"
    by (simp add: serialized_def loop_exhausted)
qed

theorem serialized_never_raises_own_witness:
  "fst (serialized_loop 100 0 always_conflicting fresh_session)
     \<noteq> RaisedByWrapper could_not_commit
   \<and> fst (serialized always_conflicting fresh_session) = ReturnedNone"
  using serialized_never_raises_own
    [of 100 0 always_conflicting fresh_session could_not_commit]
  by (simp add: always_conflicting_def pass_raising_def attempt_once_def scope_func_raises)

end
